theory Spec2Isabelle
  imports Main
begin

section \<open>The unique_contact provider function\<close>

text \<open>
  The development embeds \<^verbatim>\<open>UniqueContactFunction.Run\<close> of
  \<^verbatim>\<open>internal/provider/unique_contact_function.go\<close>: the loop that groups the decoded
  CSV rows by name (lines 146 to 193), the loop that turns every group into a framework
  object (lines 195 to 234) and the hand-over of the result (line 253).
  Decoding the Terraform arguments (lines 98 to 129) is not part of the model: the
  functions below start from the decoded values \<^verbatim>\<open>elements\<close>, \<^verbatim>\<open>labelFields\<close> and
  \<^verbatim>\<open>variableFields\<close> and from the three string arguments.
\<close>

subsection \<open>Data\<close>

text \<open>One decoded CSV row, a Go \<^verbatim>\<open>map[string]string\<close>.\<close>

type_synonym element = "string \<rightharpoonup> string"

text \<open>Indexing a Go map, \<^verbatim>\<open>v[field]\<close>: a missing key reads as the zero value of
  the element type, here the empty string.\<close>

definition index :: "element \<Rightarrow> string \<Rightarrow> string" where
  "index v field = (case v field of None \<Rightarrow> [] | Some s \<Rightarrow> s)"

text \<open>The three string arguments of \<^verbatim>\<open>UniqueContactModel\<close>, read with
  \<^verbatim>\<open>ValueString()\<close>.\<close>

record UniqueContactModel =
  GroupByField :: string
  CodeField :: string
  DestinationField :: string

record destination =
  code :: string
  destination :: string

text \<open>The struct \<^verbatim>\<open>contact\<close>. Its \<^verbatim>\<open>mu\<close> points to a mutex that no other
  contact shares, so the field holds the state of that mutex: \<open>True\<close> when locked.\<close>

record contact =
  mu :: bool
  destinations :: "destination list"
  labels :: "string list"
  variables :: "string \<rightharpoonup> string"

text \<open>The two calls of \<^verbatim>\<open>tflog.Warn\<close>, with their fields.\<close>

datatype warning =
  ElementHasEmptyName nat string
| VariableAlreadyExists string

text \<open>What stops the function: a panic of the Go runtime or of a \<^verbatim>\<open>Must\<close>
  constructor, a \<^verbatim>\<open>Lock\<close> that can never be granted, an \<^verbatim>\<open>Unlock\<close> of an
  unlocked mutex, and the function error that \<^verbatim>\<open>resp.Result.Set\<close> returns.\<close>

datatype failure = Panic | Deadlock | UnlockOfUnlockedMutex | FuncError

subsection \<open>Framework values\<close>

text \<open>
  The part of \<^verbatim>\<open>terraform-plugin-framework\<close> that the function uses: the attribute
  types, the values that carry their type, and the \<^verbatim>\<open>Must\<close> constructors, which
  panic when an element or attribute has another type than announced, when an object
  attribute is missing and when an object has an attribute its type does not name.
  The attribute maps of an object are literals of the source; they are kept as
  association lists and read with \<^const>\<open>map_of\<close>. Two object types are equal here
  when their lists are, which is at least as strict as the framework's comparison.
\<close>

datatype attr_type =
  StringType
| ListType attr_type
| MapType attr_type
| SetType attr_type
| ObjectType "(string \<times> attr_type) list"

datatype attr_value =
  StringValue string
| ListValue attr_type "attr_value list"
| SetValue attr_type "attr_value list"
| MapValue attr_type "string \<rightharpoonup> attr_value"
| ObjectValue "(string \<times> attr_type) list" "(string \<times> attr_value) list"

fun AttrTypes :: "attr_type \<Rightarrow> (string \<times> attr_type) list" where
  "AttrTypes (ObjectType ts) = ts"
| "AttrTypes _ = []"

fun Type :: "attr_value \<Rightarrow> attr_type" where
  "Type (StringValue s) = StringType"
| "Type (ListValue t es) = ListType t"
| "Type (SetValue t es) = SetType t"
| "Type (MapValue t m) = MapType t"
| "Type (ObjectValue ts as) = ObjectType ts"

definition ListValueMust :: "attr_type \<Rightarrow> attr_value list \<Rightarrow> failure + attr_value" where
  "ListValueMust t es = (if list_all (\<lambda>e. Type e = t) es then Inr (ListValue t es) else Inl Panic)"

definition SetValueMust :: "attr_type \<Rightarrow> attr_value list \<Rightarrow> failure + attr_value" where
  "SetValueMust t es = (if list_all (\<lambda>e. Type e = t) es then Inr (SetValue t es) else Inl Panic)"

definition MapValueMust :: "attr_type \<Rightarrow> (string \<rightharpoonup> attr_value) \<Rightarrow> failure + attr_value" where
  "MapValueMust t m = (if \<forall>e \<in> ran m. Type e = t then Inr (MapValue t m) else Inl Panic)"

definition ObjectValueMust ::
  "(string \<times> attr_type) list \<Rightarrow> (string \<times> attr_value) list \<Rightarrow> failure + attr_value" where
  "ObjectValueMust ts as =
     (if list_all (\<lambda>(name, t). case map_of as name of None \<Rightarrow> False | Some a \<Rightarrow> Type a = t) ts
         \<and> list_all (\<lambda>(name, a). map_of ts name \<noteq> None) as
      then Inr (ObjectValue ts as) else Inl Panic)"

definition destinationSchema :: attr_type where
  "destinationSchema = ObjectType [(''code'', StringType), (''destination'', StringType)]"

definition returnSchema :: attr_type where
  "returnSchema = ObjectType
     [(''labels'', ListType StringType),
      (''variables'', MapType StringType),
      (''destinations'', SetType destinationSchema)]"

text \<open>\<^verbatim>\<open>resp.Result.Set\<close>: the value is accepted when its type is the return type
  that \<^verbatim>\<open>Definition\<close> declares, a map of \<^const>\<open>returnSchema\<close>.\<close>

definition ResultSet :: "attr_value \<Rightarrow> failure + attr_value" where
  "ResultSet val = (if Type val = MapType returnSchema then Inr val else Inl FuncError)"

text \<open>A value can be the key of a Go map when its dynamic type is comparable. A string
  value is a struct of a state and a string; the other values hold slices or maps, and
  hashing them panics.\<close>

fun comparable :: "attr_value \<Rightarrow> bool" where
  "comparable (StringValue s) = True"
| "comparable _ = False"

subsection \<open>The grouping loop\<close>

definition Lock :: "contact \<Rightarrow> failure + contact" where
  "Lock c = (if mu c then Inl Deadlock else Inr (c\<lparr>mu := True\<rparr>))"

definition Unlock :: "contact \<Rightarrow> failure + contact" where
  "Unlock c = (if mu c then Inr (c\<lparr>mu := False\<rparr>) else Inl UnlockOfUnlockedMutex)"

text \<open>Lines 183 to 189: every variable field is written, after a warning when the
  group already has that key.\<close>

fun variables_loop ::
  "element \<Rightarrow> string list \<Rightarrow> (string \<rightharpoonup> string) \<times> warning list \<Rightarrow>
   (string \<rightharpoonup> string) \<times> warning list" where
  "variables_loop v [] (vars, log) = (vars, log)"
| "variables_loop v (field # rest) (vars, log) =
     variables_loop v rest
       (vars(field \<mapsto> index v field),
        if vars field \<noteq> None then log @ [VariableAlreadyExists field] else log)"

text \<open>The body of the loop over \<^verbatim>\<open>elements\<close> (lines 148 to 192) for the row \<open>v\<close>
  at position \<open>i\<close>. \<open>strip\<close> stands for the helper \<^verbatim>\<open>stripSpaces\<close>, which the
  function calls and whose body is in another file of the package. Reading a name that
  \<^verbatim>\<open>seen\<close> does not hold would give a contact with a nil mutex, and locking it
  panics.\<close>

definition group_step ::
  "(string \<Rightarrow> string) \<Rightarrow> UniqueContactModel \<Rightarrow> string list \<Rightarrow> string list \<Rightarrow>
   nat \<Rightarrow> element \<Rightarrow> (string \<rightharpoonup> contact) \<times> warning list \<Rightarrow>
   failure + (string \<rightharpoonup> contact) \<times> warning list" where
  "group_step strip data labelFields variableFields i v st =
     (case st of (seen, log) \<Rightarrow>
       (let name = strip (index v (GroupByField data)) in
        if name = [] then Inr (seen, log @ [ElementHasEmptyName i name])
        else
          let seen1 =
                (if seen name = None
                 then seen(name \<mapsto> \<lparr>mu = False, destinations = [], labels = [], variables = Map.empty\<rparr>)
                 else seen)
          in (case seen1 name of
               None \<Rightarrow> Inl Panic
             | Some cur \<Rightarrow>
                 (case Lock cur of
                    Inl e \<Rightarrow> Inl e
                  | Inr held \<Rightarrow>
                      (let ls = map (index v) labelFields;
                           d = \<lparr>code = index v (CodeField data),
                                destination = index v (DestinationField data)\<rparr>;
                           (vars, log') = variables_loop v variableFields (variables held, log);
                           c = \<lparr>mu = mu held,
                                destinations = destinations held @ [d],
                                labels = labels held @ ls,
                                variables = vars\<rparr>
                       in (case Unlock c of
                             Inl e \<Rightarrow> Inl e
                           | Inr c' \<Rightarrow> Inr (seen1(name \<mapsto> c'), log')))))))"

fun group_loop ::
  "(string \<Rightarrow> string) \<Rightarrow> UniqueContactModel \<Rightarrow> string list \<Rightarrow> string list \<Rightarrow>
   nat \<Rightarrow> element list \<Rightarrow> (string \<rightharpoonup> contact) \<times> warning list \<Rightarrow>
   failure + (string \<rightharpoonup> contact) \<times> warning list" where
  "group_loop strip data labelFields variableFields i [] st = Inr st"
| "group_loop strip data labelFields variableFields i (v # vs) st =
     (case group_step strip data labelFields variableFields i v st of
        Inl e \<Rightarrow> Inl e
      | Inr st' \<Rightarrow> group_loop strip data labelFields variableFields (Suc i) vs st')"

subsection \<open>The loop over the groups\<close>

text \<open>Lines 197 to 205. \<^verbatim>\<open>seenLabels\<close> is a \<^verbatim>\<open>map[string]bool\<close>, read with the
  default \<open>False\<close>.\<close>

fun labels_loop :: "string list \<Rightarrow> (string \<Rightarrow> bool) \<Rightarrow> attr_value list \<Rightarrow> attr_value list" where
  "labels_loop [] seenLabels acc = acc"
| "labels_loop (label # rest) seenLabels acc =
     labels_loop rest (seenLabels(label := True))
       (if \<not> seenLabels label then acc @ [StringValue label] else acc)"

text \<open>Lines 256 to 267.\<close>

fun unique_loop :: "'a list \<Rightarrow> ('a \<Rightarrow> bool) \<Rightarrow> 'a list \<Rightarrow> 'a list" where
  "unique_loop [] seen uniqueSlice = uniqueSlice"
| "unique_loop (element # rest) seen uniqueSlice =
     (if \<not> seen element
      then unique_loop rest (seen(element := True)) (uniqueSlice @ [element])
      else unique_loop rest seen uniqueSlice)"

definition UniqueSliceElements :: "'a list \<Rightarrow> 'a list" where
  "UniqueSliceElements inputSlice = unique_loop inputSlice (\<lambda>_. False) []"

text \<open>Line 231 calls it on framework values, which become keys of its map.\<close>

definition UniqueSliceElements_values :: "attr_value list \<Rightarrow> failure + attr_value list" where
  "UniqueSliceElements_values inputSlice =
     (if list_all comparable inputSlice then Inr (UniqueSliceElements inputSlice) else Inl Panic)"

text \<open>Lines 212 to 227.\<close>

fun destinations_loop ::
  "destination list \<Rightarrow> (string \<Rightarrow> bool) \<Rightarrow> attr_value list \<Rightarrow> failure + attr_value list" where
  "destinations_loop [] seenDestination acc = Inr acc"
| "destinations_loop (dest # rest) seenDestination acc =
     (if \<not> seenDestination (destination dest)
      then (case ObjectValueMust (AttrTypes destinationSchema)
                   [(''code'', StringValue (code dest)),
                    (''destination'', StringValue (destination dest))] of
              Inl e \<Rightarrow> Inl e
            | Inr obj \<Rightarrow>
                destinations_loop rest (seenDestination(destination dest := True)) (acc @ [obj]))
      else destinations_loop rest (seenDestination(destination dest := True)) acc)"

text \<open>The body of the loop over \<^verbatim>\<open>seen\<close> (lines 197 to 233) for one contact. The
  three attributes of the object are built in the order of the literal.\<close>

definition contact_value :: "contact \<Rightarrow> failure + attr_value" where
  "contact_value c =
     (let ls = labels_loop (labels c) (\<lambda>_. False) [];
          vs = (\<lambda>k. map_option StringValue (variables c k))
      in case destinations_loop (destinations c) (\<lambda>_. False) [] of
           Inl e \<Rightarrow> Inl e
         | Inr ds \<Rightarrow>
        (case SetValueMust destinationSchema ds of
           Inl e \<Rightarrow> Inl e
         | Inr dset \<Rightarrow>
        (case UniqueSliceElements_values ls of
           Inl e \<Rightarrow> Inl e
         | Inr uls \<Rightarrow>
        (case ListValueMust StringType uls of
           Inl e \<Rightarrow> Inl e
         | Inr llist \<Rightarrow>
        (case MapValueMust StringType vs of
           Inl e \<Rightarrow> Inl e
         | Inr vmap \<Rightarrow>
             ObjectValueMust (AttrTypes returnSchema)
               [(''destinations'', dset), (''labels'', llist), (''variables'', vmap)])))))"


text \<open>Every turn of that loop reads one contact and writes one key of
  \<^verbatim>\<open>contacts\<close>, so the map it leaves holds, under every name of \<^verbatim>\<open>seen\<close>, the
  object of that contact; a panic in any turn ends the function.\<close>

definition Finalize :: "(string \<rightharpoonup> contact) \<Rightarrow> failure + (string \<rightharpoonup> attr_value)" where
  "Finalize seen =
     (if \<exists>c \<in> ran seen. isl (contact_value c) then Inl Panic
      else Inr (\<lambda>n. case seen n of
                       None \<Rightarrow> None
                     | Some c \<Rightarrow> (case contact_value c of Inl e \<Rightarrow> None | Inr obj \<Rightarrow> Some obj)))"

subsection \<open>The function\<close>

text \<open>Lines 146 to 253. The result is the value handed to \<^verbatim>\<open>resp.Result.Set\<close>
  together with the warnings logged on the way.\<close>

definition Run ::
  "(string \<Rightarrow> string) \<Rightarrow> UniqueContactModel \<Rightarrow> element list \<Rightarrow> string list \<Rightarrow> string list \<Rightarrow>
   failure + attr_value \<times> warning list" where
  "Run strip data elements labelFields variableFields =
     (case group_loop strip data labelFields variableFields 0 elements (Map.empty, []) of
        Inl e \<Rightarrow> Inl e
      | Inr (seen, log) \<Rightarrow>
     (case Finalize seen of
        Inl e \<Rightarrow> Inl e
      | Inr contacts \<Rightarrow>
     (case MapValueMust returnSchema contacts of
        Inl e \<Rightarrow> Inl e
      | Inr val \<Rightarrow>
     (case ResultSet val of
        Inl e \<Rightarrow> Inl e
      | Inr res \<Rightarrow> Inr (res, log)))))"

subsection \<open>Reading the result\<close>

text \<open>The entries of a map value and the attributes of an object value, as the caller
  reads them (\<^verbatim>\<open>each.key\<close>, \<^verbatim>\<open>each.value.labels\<close>).\<close>

fun Elements :: "attr_value \<Rightarrow> (string \<rightharpoonup> attr_value)" where
  "Elements (MapValue t m) = m"
| "Elements _ = Map.empty"

fun Attributes :: "attr_value \<Rightarrow> (string \<rightharpoonup> attr_value)" where
  "Attributes (ObjectValue ts as) = map_of as"
| "Attributes _ = Map.empty"

subsection \<open>The vocabulary of the specification\<close>

text \<open>The rows that belong to the group \<open>k\<close>, in input order.\<close>

definition rows_of ::
  "(string \<Rightarrow> string) \<Rightarrow> UniqueContactModel \<Rightarrow> string \<Rightarrow> element list \<Rightarrow> element list" where
  "rows_of strip data k elements =
     filter (\<lambda>v. strip (index v (GroupByField data)) = k) elements"

text \<open>A stable unique-filter: an entry is kept when no earlier entry has its key.\<close>

definition first_occurrences :: "('a \<Rightarrow> 'b) \<Rightarrow> 'a list \<Rightarrow> 'a list" where
  "first_occurrences key xs =
     map (\<lambda>i. xs ! i) (filter (\<lambda>i. \<forall>j < i. key (xs ! j) \<noteq> key (xs ! i)) [0 ..< length xs])"

text \<open>The destination pair and the label tuple that one row contributes.\<close>

definition destination_of :: "UniqueContactModel \<Rightarrow> element \<Rightarrow> destination" where
  "destination_of data v =
     \<lparr>code = index v (CodeField data), destination = index v (DestinationField data)\<rparr>"

definition label_tuple :: "string list \<Rightarrow> element \<Rightarrow> string list" where
  "label_tuple labelFields v = map (index v) labelFields"

text \<open>A destination pair as the object of the result.\<close>

definition destination_object :: "destination \<Rightarrow> attr_value" where
  "destination_object d =
     ObjectValue (AttrTypes destinationSchema)
       [(''code'', StringValue (code d)), (''destination'', StringValue (destination d))]"

text \<open>Modelled from the spec: \<^verbatim>\<open>stripSpaces\<close> is called on line 148 and defined in a
  file of the package that is not among the sources. The specification has it trim the
  whitespace that surrounds the value.\<close>

definition isSpace :: "char \<Rightarrow> bool" where
  "isSpace c = (c \<in> set [CHR '' '', CHR 0x09, CHR 0x0A, CHR 0x0B, CHR 0x0C, CHR 0x0D])"

definition stripSpaces :: "string \<Rightarrow> string" where
  "stripSpaces s = rev (dropWhile isSpace (rev (dropWhile isSpace s)))"

subsection \<open>What the two loops compute\<close>

text \<open>The contact that the grouping loop holds for the name \<open>k\<close> after the rows
  \<open>elements\<close>: nothing for the empty name and for a name no row has; otherwise the
  pairs and label tuples of the rows of \<open>k\<close> in input order, and every variable field
  with the value of the last row of \<open>k\<close>. The lemmas of the next section show that
  \<^const>\<open>group_loop\<close> ends in this state.\<close>

definition accumulated ::
  "(string \<Rightarrow> string) \<Rightarrow> UniqueContactModel \<Rightarrow> string list \<Rightarrow> string list \<Rightarrow>
   element list \<Rightarrow> (string \<rightharpoonup> contact)" where
  "accumulated strip data labelFields variableFields elements k =
     (let rows = rows_of strip data k elements in
      if k = [] \<or> rows = [] then None
      else Some \<lparr>mu = False,
                 destinations = map (destination_of data) rows,
                 labels = concat (map (label_tuple labelFields) rows),
                 variables = (\<lambda>f. if f \<in> set variableFields then Some (index (last rows) f) else None)\<rparr>)"

text \<open>The object that the loop over the groups builds for a contact, shown below to
  be the value of \<^const>\<open>contact_value\<close>.\<close>

definition contact_object :: "contact \<Rightarrow> attr_value" where
  "contact_object c =
     ObjectValue (AttrTypes returnSchema)
       [(''destinations'',
           SetValue destinationSchema
             (map destination_object (first_occurrences destination (destinations c)))),
        (''labels'',
           ListValue StringType (map StringValue (first_occurrences (\<lambda>x. x) (labels c)))),
        (''variables'',
           MapValue StringType (\<lambda>k. map_option StringValue (variables c k)))]"

subsection \<open>An example input\<close>

text \<open>Rows in the shape of the package's test: three rows of \<open>foo1\<close>, the third with
  a leading blank in its name and with the destination of the first under another code,
  a row whose name is blank, and a row of \<open>bar1\<close>. The variable field \<open>note\<close> is
  a column that no row has.\<close>

definition example_data :: UniqueContactModel where
  "example_data = \<lparr>GroupByField = ''name'', CodeField = ''code'', DestinationField = ''destination''\<rparr>"

definition example_row :: "string \<Rightarrow> string \<Rightarrow> string \<Rightarrow> element" where
  "example_row n c d = [''name'' \<mapsto> n, ''code'' \<mapsto> c, ''destination'' \<mapsto> d]"

definition example_elements :: "element list" where
  "example_elements =
     [example_row ''foo1'' ''1'' ''ami-A'',
      example_row ''foo1'' ''1'' ''ami-B'',
      example_row '' foo1'' ''2'' ''ami-A'',
      example_row ''  '' ''9'' ''ami-C'',
      example_row ''bar1'' ''m3'' ''ami-A'']"

definition example_labels :: "string list" where
  "example_labels = [''code'', ''destination'']"

definition example_variables :: "string list" where
  "example_variables = [''name'', ''note'']"


section \<open>What the loops compute\<close>

subsection \<open>The stable unique-filter\<close>

lemma first_occurrences_Nil: "first_occurrences key [] = []"
  by (simp add: first_occurrences_def)

lemma first_occurrences_snoc:
  "first_occurrences key (xs @ [x]) =
     first_occurrences key xs @ (if key x \<in> key ` set xs then [] else [x])"
proof -
  have old: "filter (\<lambda>i. \<forall>j < i. key ((xs @ [x]) ! j) \<noteq> key ((xs @ [x]) ! i)) [0 ..< length xs]
           = filter (\<lambda>i. \<forall>j < i. key (xs ! j) \<noteq> key (xs ! i)) [0 ..< length xs]"
    by (rule filter_cong) (auto simp: nth_append)
  have new: "(\<forall>j < length xs. key ((xs @ [x]) ! j) \<noteq> key x) \<longleftrightarrow> key x \<notin> key ` set xs"
  proof
    assume a: "\<forall>j < length xs. key ((xs @ [x]) ! j) \<noteq> key x"
    show "key x \<notin> key ` set xs"
    proof
      assume "key x \<in> key ` set xs"
      then obtain y where "y \<in> set xs" "key y = key x" by auto
      then obtain j where "j < length xs" "xs ! j = y" by (auto simp: in_set_conv_nth)
      with a \<open>key y = key x\<close> show False by (auto simp: nth_append)
    qed
  next
    assume "key x \<notin> key ` set xs"
    then have "\<And>j. j < length xs \<Longrightarrow> key (xs ! j) \<noteq> key x"
      by (metis imageI nth_mem)
    then show "\<forall>j < length xs. key ((xs @ [x]) ! j) \<noteq> key x"
      by (simp add: nth_append)
  qed
  have m: "map ((!) (xs @ [x])) is = map ((!) xs) is" if "set is \<subseteq> {..< length xs}" for "is"
    using that by (intro map_cong) (auto simp: nth_append)
  have "first_occurrences key (xs @ [x]) =
          map ((!) (xs @ [x])) (filter (\<lambda>i. \<forall>j < i. key (xs ! j) \<noteq> key (xs ! i)) [0 ..< length xs])
          @ map ((!) (xs @ [x])) (if key x \<notin> key ` set xs then [length xs] else [])"
    unfolding first_occurrences_def using old new by simp
  also have "\<dots> = first_occurrences key xs @ (if key x \<in> key ` set xs then [] else [x])"
    unfolding first_occurrences_def by (subst m) auto
  finally show ?thesis .
qed

lemma keys_first_occurrences: "key ` set (first_occurrences key xs) = key ` set xs"
  by (induction xs rule: rev_induct) (auto simp: first_occurrences_Nil first_occurrences_snoc)

lemma distinct_first_occurrences: "distinct (map key (first_occurrences key xs))"
proof (induction xs rule: rev_induct)
  case Nil
  show ?case by (simp add: first_occurrences_Nil)
next
  case (snoc x xs)
  have "key x \<notin> key ` set xs \<Longrightarrow> key x \<notin> key ` set (first_occurrences key xs)"
    by (simp add: keys_first_occurrences)
  with snoc show ?case by (simp add: first_occurrences_snoc)
qed

lemma first_occurrences_distinct: "distinct (map key xs) \<Longrightarrow> first_occurrences key xs = xs"
  by (induction xs rule: rev_induct) (auto simp: first_occurrences_Nil first_occurrences_snoc)

lemma first_occurrences_foldl:
  "first_occurrences key xs =
     foldl (\<lambda>kept x. if key x \<in> key ` set kept then kept else kept @ [x]) [] xs"
proof (induction xs rule: rev_induct)
  case Nil
  show ?case by (simp add: first_occurrences_Nil)
next
  case (snoc x xs)
  have "key x \<in> key ` set xs \<longleftrightarrow> key x \<in> key ` set (first_occurrences key xs)"
    by (simp add: keys_first_occurrences)
  then show ?case
    by (simp add: first_occurrences_snoc snoc.IH [symmetric])
qed

subsection \<open>The loops over one group\<close>

text \<open>Each loop is followed with the rows already visited, \<open>pre\<close>: its map of seen
  keys holds the keys of \<open>pre\<close> and its slice holds their first occurrences.\<close>

lemma unique_loop_first:
  "unique_loop xs (\<lambda>k. k \<in> set pre) (first_occurrences (\<lambda>x. x) pre)
     = first_occurrences (\<lambda>x. x) (pre @ xs)"
proof (induction xs arbitrary: pre)
  case Nil
  show ?case by simp
next
  case (Cons x xs)
  have s: "(\<lambda>k. k \<in> set pre)(x := True) = (\<lambda>k. k \<in> set (pre @ [x]))"
    by (rule ext) simp
  show ?case
  proof (cases "x \<in> set pre")
    case True
    then have "(\<lambda>k. k \<in> set (pre @ [x])) = (\<lambda>k. k \<in> set pre)" by auto
    with True Cons [of "pre @ [x]"] show ?thesis
      by (simp add: first_occurrences_snoc)
  next
    case False
    with Cons [of "pre @ [x]"] show ?thesis
      by (simp add: first_occurrences_snoc s)
  qed
qed

lemma UniqueSliceElements_first: "UniqueSliceElements xs = first_occurrences (\<lambda>x. x) xs"
  using unique_loop_first [of xs "[]"] by (simp add: UniqueSliceElements_def first_occurrences_Nil)

lemma labels_loop_first:
  "labels_loop ls (\<lambda>k. k \<in> set pre) (map StringValue (first_occurrences (\<lambda>x. x) pre))
     = map StringValue (first_occurrences (\<lambda>x. x) (pre @ ls))"
proof (induction ls arbitrary: pre)
  case Nil
  show ?case by simp
next
  case (Cons l ls)
  have s: "(\<lambda>k. k \<in> set pre)(l := True) = (\<lambda>k. k \<in> set (pre @ [l]))"
    by (rule ext) simp
  show ?case using Cons [of "pre @ [l]"]
    by (cases "l \<in> set pre") (simp_all add: first_occurrences_snoc s)
qed

lemma destination_ObjectValueMust:
  "ObjectValueMust (AttrTypes destinationSchema)
     [(''code'', StringValue (code d)), (''destination'', StringValue (destination d))]
   = Inr (destination_object d)"
  by (simp add: ObjectValueMust_def destinationSchema_def destination_object_def)

lemma destinations_loop_first:
  "destinations_loop ds (\<lambda>k. k \<in> destination ` set pre)
       (map destination_object (first_occurrences destination pre))
     = Inr (map destination_object (first_occurrences destination (pre @ ds)))"
proof (induction ds arbitrary: pre)
  case Nil
  show ?case by simp
next
  case (Cons d ds)
  have s: "(\<lambda>k. k \<in> destination ` set pre)(destination d := True)
             = (\<lambda>k. k \<in> destination ` set (pre @ [d]))"
    by (rule ext) simp
  show ?case using Cons [of "pre @ [d]"]
    by (cases "destination d \<in> destination ` set pre")
       (simp_all add: first_occurrences_snoc s destination_ObjectValueMust)
qed

lemma Type_destination_object: "Type (destination_object d) = destinationSchema"
  by (simp add: destination_object_def destinationSchema_def)

lemma contact_value_object: "contact_value c = Inr (contact_object c)"
proof -
  have d: "destinations_loop (destinations c) (\<lambda>_. False) []
             = Inr (map destination_object (first_occurrences destination (destinations c)))"
    using destinations_loop_first [of "destinations c" "[]"] by (simp add: first_occurrences_Nil)
  have l: "labels_loop (labels c) (\<lambda>_. False) []
             = map StringValue (first_occurrences (\<lambda>x. x) (labels c))"
    using labels_loop_first [of "labels c" "[]"] by (simp add: first_occurrences_Nil)
  have s: "SetValueMust destinationSchema (map destination_object ds)
             = Inr (SetValue destinationSchema (map destination_object ds))" for ds
    by (simp add: SetValueMust_def list_all_iff Type_destination_object)
  have u: "UniqueSliceElements_values (map StringValue (first_occurrences (\<lambda>x. x) ls))
             = Inr (map StringValue (first_occurrences (\<lambda>x. x) ls))" for ls
  proof -
    have "distinct (map StringValue (first_occurrences (\<lambda>x. x) ls))"
      using distinct_first_occurrences [of "\<lambda>x. x" ls] by (simp add: distinct_map inj_on_def)
    then show ?thesis
      using first_occurrences_distinct [of "\<lambda>x. x" "map StringValue (first_occurrences (\<lambda>x. x) ls)"]
      by (simp add: UniqueSliceElements_values_def UniqueSliceElements_first list_all_iff)
  qed
  have t: "ListValueMust StringType (map StringValue ls) = Inr (ListValue StringType (map StringValue ls))" for ls
    by (simp add: ListValueMust_def list_all_iff)
  have m: "MapValueMust StringType (\<lambda>k. map_option StringValue (vars k))
             = Inr (MapValue StringType (\<lambda>k. map_option StringValue (vars k)))" for vars :: "string \<rightharpoonup> string"
    by (auto simp: MapValueMust_def ran_def)
  show ?thesis
    by (simp add: contact_value_def d l s u t m contact_object_def ObjectValueMust_def
        returnSchema_def)
qed

lemma Finalize_objects: "Finalize seen = Inr (\<lambda>n. map_option contact_object (seen n))"
proof -
  have "(\<lambda>n. case seen n of None \<Rightarrow> None
               | Some c \<Rightarrow> (case contact_value c of Inl e \<Rightarrow> None | Inr obj \<Rightarrow> Some obj))
        = (\<lambda>n. map_option contact_object (seen n))"
    by (rule ext) (simp add: contact_value_object split: option.split)
  then show ?thesis by (simp add: Finalize_def contact_value_object)
qed


subsection \<open>The grouping loop\<close>

lemma variables_loop_fst:
  "fst (variables_loop v fs (vars, log)) = (\<lambda>f. if f \<in> set fs then Some (index v f) else vars f)"
proof (induction fs arbitrary: vars log)
  case Nil
  show ?case by simp
next
  case (Cons a fs)
  show ?case by (simp add: Cons) (rule ext, simp)
qed

lemma group_loop_append:
  "group_loop strip data lf vf i (xs @ ys) st =
     (case group_loop strip data lf vf i xs st of
        Inl e \<Rightarrow> Inl e
      | Inr st' \<Rightarrow> group_loop strip data lf vf (i + length xs) ys st')"
  by (induction xs arbitrary: i st) (auto split: sum.split)

lemma rows_of_snoc:
  "rows_of strip data k (es @ [v]) =
     rows_of strip data k es @ (if strip (index v (GroupByField data)) = k then [v] else [])"
  by (simp add: rows_of_def)

lemma group_step_accumulated:
  "\<exists>log'. group_step strip data lf vf i v (accumulated strip data lf vf es, log)
            = Inr (accumulated strip data lf vf (es @ [v]), log')"
proof (cases "strip (index v (GroupByField data)) = []")
  case True
  then have "accumulated strip data lf vf (es @ [v]) = accumulated strip data lf vf es"
    by (intro ext) (auto simp: accumulated_def rows_of_snoc Let_def)
  with True show ?thesis by (simp add: group_step_def)
next
  case False
  define name where "name = strip (index v (GroupByField data))"
  define old where "old = rows_of strip data name es"
  define cur where "cur =
     \<lparr>mu = False,
      destinations = map (destination_of data) old,
      labels = concat (map (label_tuple lf) old),
      variables = (if old = [] then Map.empty
                   else (\<lambda>f. if f \<in> set vf then Some (index (last old) f) else None))\<rparr>"
  define seen where "seen = accumulated strip data lf vf es"
  define seen1 where "seen1 =
     (if seen name = None
      then seen(name \<mapsto> \<lparr>mu = False, destinations = [], labels = [], variables = Map.empty\<rparr>)
      else seen)"
  have name: "name \<noteq> []" using False by (simp add: name_def)
  have cur: "seen1 name = Some cur"
    using name unfolding seen1_def seen_def accumulated_def old_def cur_def Let_def by simp
  have other: "seen1 k = seen k" if "k \<noteq> name" for k
    using that by (simp add: seen1_def)
  obtain vars log' where vl:
    "variables_loop v vf (variables (cur\<lparr>mu := True\<rparr>), log) = (vars, log')"
    by (cases "variables_loop v vf (variables (cur\<lparr>mu := True\<rparr>), log)") blast
  have vars: "vars = (\<lambda>f. if f \<in> set vf then Some (index v f) else None)"
    using variables_loop_fst [of v vf "variables cur" log] vl
    by (auto simp: cur_def)
  define c' where "c' =
     \<lparr>mu = False,
      destinations = destinations cur @ [destination_of data v],
      labels = labels cur @ label_tuple lf v,
      variables = vars\<rparr>"
  have step: "group_step strip data lf vf i v (seen, log) = Inr (seen1(name \<mapsto> c'), log')"
    using name cur vl
    by (simp add: group_step_def name_def [symmetric] seen1_def [symmetric] Lock_def Unlock_def
        cur_def c'_def destination_of_def label_tuple_def)
  have "seen1(name \<mapsto> c') = accumulated strip data lf vf (es @ [v])"
  proof (rule ext)
    fix k
    show "(seen1(name \<mapsto> c')) k = accumulated strip data lf vf (es @ [v]) k"
    proof (cases "k = name")
      case True
      with name show ?thesis
        by (simp add: accumulated_def rows_of_snoc name_def [symmetric] old_def [symmetric]
            c'_def cur_def vars cong: if_cong)
    next
      case False
      then have "rows_of strip data k (es @ [v]) = rows_of strip data k es"
        by (auto simp: rows_of_snoc name_def)
      with False other [of k] show ?thesis
        by (simp add: accumulated_def seen_def)
    qed
  qed
  with step show ?thesis by (auto simp: seen_def)
qed

lemma accumulated_Nil: "accumulated strip data lf vf [] = Map.empty"
  by (rule ext) (simp add: accumulated_def rows_of_def)

lemma group_loop_accumulated:
  "\<exists>log. group_loop strip data lf vf i es (Map.empty, []) = Inr (accumulated strip data lf vf es, log)"
proof (induction es rule: rev_induct)
  case Nil
  show ?case by (simp add: accumulated_Nil)
next
  case (snoc v es)
  then obtain log where
    "group_loop strip data lf vf i es (Map.empty, []) = Inr (accumulated strip data lf vf es, log)"
    by blast
  moreover obtain log' where
    "group_step strip data lf vf (i + length es) v (accumulated strip data lf vf es, log)
       = Inr (accumulated strip data lf vf (es @ [v]), log')"
    using group_step_accumulated by blast
  ultimately show ?case by (simp add: group_loop_append)
qed

lemma accumulated_Some:
  "accumulated strip data lf vf es k = Some c \<Longrightarrow>
     k \<noteq> [] \<and> rows_of strip data k es \<noteq> [] \<and>
     destinations c = map (destination_of data) (rows_of strip data k es) \<and>
     labels c = concat (map (label_tuple lf) (rows_of strip data k es)) \<and>
     variables c = (\<lambda>f. if f \<in> set vf then Some (index (last (rows_of strip data k es)) f) else None)"
  by (auto simp: accumulated_def Let_def split: if_splits)

lemma accumulated_rows:
  "rows_of strip data k es = rows_of strip data k es' \<Longrightarrow>
     accumulated strip data lf vf es k = accumulated strip data lf vf es' k"
  by (simp add: accumulated_def)

text \<open>The loop reads a row only through \<^const>\<open>index\<close>.\<close>

lemma variables_loop_cong:
  "index v = index v' \<Longrightarrow> variables_loop v fs st = variables_loop v' fs st"
proof (induction fs arbitrary: st)
  case Nil
  show ?case by (cases st) simp
next
  case (Cons a fs)
  then show ?case by (cases st) simp
qed

lemma group_step_cong:
  "index v = index v' \<Longrightarrow>
     group_step strip data lf vf i v st = group_step strip data lf vf i v' st"
proof -
  assume a: "index v = index v'"
  have b: "variables_loop v = variables_loop v'"
    by (intro ext) (rule variables_loop_cong [OF a])
  show ?thesis unfolding group_step_def a b ..
qed

lemma group_loop_cong:
  "list_all2 (\<lambda>v v'. index v = index v') es es' \<Longrightarrow>
     group_loop strip data lf vf i es st = group_loop strip data lf vf i es' st"
proof (induction es es' arbitrary: i st rule: list_all2_induct)
  case Nil
  show ?case by simp
next
  case (Cons v es v' es')
  then show ?case
    by (simp add: group_step_cong [of v v'] split: sum.split)
qed

subsection \<open>The function\<close>

lemma Run_result:
  "\<exists>log. Run strip data es lf vf =
     Inr (MapValue returnSchema (\<lambda>n. map_option contact_object (accumulated strip data lf vf es n)), log)"
proof -
  obtain log where
    "group_loop strip data lf vf 0 es (Map.empty, []) = Inr (accumulated strip data lf vf es, log)"
    using group_loop_accumulated by blast
  moreover have "Type (contact_object c) = returnSchema" for c
    by (simp add: contact_object_def returnSchema_def)
  then have "MapValueMust returnSchema (\<lambda>n. map_option contact_object (seen n))
        = Inr (MapValue returnSchema (\<lambda>n. map_option contact_object (seen n)))" for seen :: "string \<rightharpoonup> contact"
    by (auto simp: MapValueMust_def ran_def)
  ultimately show ?thesis
    by (simp add: Run_def Finalize_objects ResultSet_def)
qed

lemma Run_group:
  "\<exists>res log. Run strip data es lf vf = Inr (res, log) \<and>
     (\<forall>k. Elements res k = map_option contact_object (accumulated strip data lf vf es k))"
proof -
  obtain log where "Run strip data es lf vf =
     Inr (MapValue returnSchema (\<lambda>n. map_option contact_object (accumulated strip data lf vf es n)), log)"
    using Run_result by blast
  then show ?thesis by simp
qed

lemma Run_contact:
  "\<exists>res log. Run strip data es lf vf = Inr (res, log) \<and>
     (\<forall>k obj. Elements res k = Some obj \<longrightarrow>
        (\<exists>c. accumulated strip data lf vf es k = Some c \<and> obj = contact_object c))"
proof -
  obtain res log where "Run strip data es lf vf = Inr (res, log)"
    and "\<And>k. Elements res k = map_option contact_object (accumulated strip data lf vf es k)"
    using Run_group by blast
  then show ?thesis by auto
qed

lemma Run_cong:
  "list_all2 (\<lambda>v v'. index v = index v') es es' \<Longrightarrow>
     Run strip data es lf vf = Run strip data es' lf vf"
  by (simp add: Run_def group_loop_cong [of es es'])

lemma Run_Elements:
  "Run strip data es lf vf = Inr (res, log) \<Longrightarrow>
     Elements res k = map_option contact_object (accumulated strip data lf vf es k)"
  using Run_result [of strip data es lf vf] by auto

lemma group_exists:
  "Run strip data es lf vf = Inr (res, log) \<Longrightarrow> k \<noteq> [] \<Longrightarrow>
     rows_of strip data k es \<noteq> [] \<Longrightarrow> \<exists>obj. Elements res k = Some obj"
  by (simp add: Run_Elements accumulated_def Let_def)

subsection \<open>The warnings\<close>

text \<open>The warnings of a run are fixed by the values that the rows have under the
  group-by field: the loop warns of an empty name and of a variable key that the group
  already holds, and neither depends on what a row has under another field.\<close>

lemma variables_loop_snd_dom:
  "dom vars = dom vars' \<Longrightarrow>
     snd (variables_loop v fs (vars, log)) = snd (variables_loop v' fs (vars', log))"
proof (induction fs arbitrary: vars vars' log)
  case Nil
  show ?case by simp
next
  case (Cons a fs)
  from Cons.prems have "a \<in> dom vars \<longleftrightarrow> a \<in> dom vars'" by simp
  then have s: "vars a = None \<longleftrightarrow> vars' a = None" by (metis domIff)
  from Cons.prems have d: "dom (vars(a \<mapsto> index v a)) = dom (vars'(a \<mapsto> index v' a))" by simp
  have ih: "snd (variables_loop v fs (vars(a \<mapsto> index v a), l))
              = snd (variables_loop v' fs (vars'(a \<mapsto> index v' a), l))" for l
    using Cons.IH [OF d] .
  show ?case by (simp add: s ih)
qed

lemma group_step_log:
  "group_step strip data lf vf i v (seen, log) = Inr (seen', log') \<Longrightarrow>
     log' =
       (if strip (index v (GroupByField data)) = [] then log @ [ElementHasEmptyName i []]
        else snd (variables_loop v vf
                    (case seen (strip (index v (GroupByField data))) of
                       None \<Rightarrow> Map.empty
                     | Some c \<Rightarrow> variables c, log)))"
  by (auto simp: group_step_def Let_def Lock_def Unlock_def
           split: option.splits if_splits sum.splits prod.splits)

lemma rows_of_empty_iff:
  "rows_of strip data k es = [] \<longleftrightarrow>
     k \<notin> strip ` set (map (\<lambda>r. index r (GroupByField data)) es)"
  by (auto simp: rows_of_def filter_empty_conv)

lemma accumulated_variables_dom:
  "dom (case accumulated strip data lf vf es k of None \<Rightarrow> Map.empty | Some c \<Rightarrow> variables c)
     = (if k = [] \<or> rows_of strip data k es = [] then {} else set vf)"
  by (auto simp: accumulated_def Let_def dom_def)

lemma group_loop_log_names:
  "map (\<lambda>r. index r (GroupByField data)) es = map (\<lambda>r. index r (GroupByField data)) es' \<Longrightarrow>
   group_loop strip data lf vf i es (Map.empty, []) = Inr (seen, log) \<Longrightarrow>
   group_loop strip data lf vf i es' (Map.empty, []) = Inr (seen', log') \<Longrightarrow>
   log = log'"
proof (induction es arbitrary: es' seen log seen' log' rule: rev_induct)
  case Nil
  then show ?case by simp
next
  case (snoc v es)
  from snoc.prems(1) obtain es0 v' where es': "es' = es0 @ [v']"
    by (cases es' rule: rev_cases) auto
  with snoc.prems(1) have names: "map (\<lambda>r. index r (GroupByField data)) es
        = map (\<lambda>r. index r (GroupByField data)) es0"
    and last: "index v (GroupByField data) = index v' (GroupByField data)"
    by auto
  from names have len: "length es = length es0" by (rule map_eq_imp_length_eq)
  obtain l where l: "group_loop strip data lf vf i es (Map.empty, [])
      = Inr (accumulated strip data lf vf es, l)"
    using group_loop_accumulated by blast
  obtain l0 where l0: "group_loop strip data lf vf i es0 (Map.empty, [])
      = Inr (accumulated strip data lf vf es0, l0)"
    using group_loop_accumulated by blast
  have same: "l = l0" using snoc.IH [OF names l l0] .
  from snoc.prems(2) l have s: "group_step strip data lf vf (i + length es) v
      (accumulated strip data lf vf es, l) = Inr (seen, log)"
    by (simp add: group_loop_append split: sum.splits)
  from snoc.prems(3) l0 es' have s': "group_step strip data lf vf (i + length es0) v'
      (accumulated strip data lf vf es0, l0) = Inr (seen', log')"
    by (simp add: group_loop_append split: sum.splits)
  define name where "name = strip (index v (GroupByField data))"
  have d: "dom (case accumulated strip data lf vf es name of None \<Rightarrow> Map.empty | Some c \<Rightarrow> variables c)
         = dom (case accumulated strip data lf vf es0 name of None \<Rightarrow> Map.empty | Some c \<Rightarrow> variables c)"
    unfolding accumulated_variables_dom rows_of_empty_iff names ..
  show ?case
    using group_step_log [OF s] group_step_log [OF s'] variables_loop_snd_dom [OF d, of v vf l0 v']
    by (simp add: last [symmetric] name_def [symmetric] same len)
qed

lemma Run_log:
  "Run strip data es lf vf = Inr (res, log) \<Longrightarrow>
     \<exists>seen. group_loop strip data lf vf 0 es (Map.empty, []) = Inr (seen, log)"
  by (auto simp: Run_def split: sum.splits prod.splits)

lemma Run_log_names:
  "map (\<lambda>r. index r (GroupByField data)) es = map (\<lambda>r. index r (GroupByField data)) es' \<Longrightarrow>
   Run strip data es lf vf = Inr (res, log) \<Longrightarrow>
   \<exists>res'. Run strip data es' lf vf = Inr (res', log)"
proof -
  assume n: "map (\<lambda>r. index r (GroupByField data)) es = map (\<lambda>r. index r (GroupByField data)) es'"
    and r: "Run strip data es lf vf = Inr (res, log)"
  obtain res' log' where r': "Run strip data es' lf vf = Inr (res', log')"
    using Run_group by blast
  from Run_log [OF r] obtain seen where
    g: "group_loop strip data lf vf 0 es (Map.empty, []) = Inr (seen, log)" by blast
  from Run_log [OF r'] obtain seen' where
    g': "group_loop strip data lf vf 0 es' (Map.empty, []) = Inr (seen', log')" by blast
  from group_loop_log_names [OF n g g'] r' show ?thesis by simp
qed

subsection \<open>Trimming\<close>

lemma stripSpaces_empty: "stripSpaces s = [] \<longleftrightarrow> list_all isSpace s"
proof -
  have "dropWhile isSpace (rev (dropWhile isSpace s)) = [] \<longleftrightarrow> dropWhile isSpace s = []"
  proof
    assume a: "dropWhile isSpace (rev (dropWhile isSpace s)) = []"
    show "dropWhile isSpace s = []"
    proof (rule ccontr)
      assume n: "dropWhile isSpace s \<noteq> []"
      then have "\<not> isSpace (hd (dropWhile isSpace s))" by (rule hd_dropWhile)
      moreover have "hd (dropWhile isSpace s) \<in> set (rev (dropWhile isSpace s))"
        using n by simp
      ultimately show False using a by auto
    qed
  next
    assume b: "dropWhile isSpace s = []"
    show "dropWhile isSpace (rev (dropWhile isSpace s)) = []"
      unfolding b by simp
  qed
  then show ?thesis
    by (simp add: stripSpaces_def list_all_iff)
qed

subsection \<open>The example input\<close>

lemma index_example_row:
  "index (example_row n c d) ''name'' = n"
  "index (example_row n c d) ''code'' = c"
  "index (example_row n c d) ''destination'' = d"
  by (simp_all add: index_def example_row_def)

lemma stripSpaces_examples:
  "stripSpaces ''foo1'' = ''foo1''" "stripSpaces '' foo1'' = ''foo1''"
  "stripSpaces ''  '' = []" "stripSpaces ''bar1'' = ''bar1''"
  by (simp_all add: stripSpaces_def isSpace_def)

lemma example_data_fields:
  "GroupByField example_data = ''name''" "CodeField example_data = ''code''"
  "DestinationField example_data = ''destination''"
  by (simp_all add: example_data_def)

lemma rows_foo1:
  "rows_of stripSpaces example_data ''foo1'' example_elements =
     [example_row ''foo1'' ''1'' ''ami-A'',
      example_row ''foo1'' ''1'' ''ami-B'',
      example_row '' foo1'' ''2'' ''ami-A'']"
  by (simp add: rows_of_def example_elements_def example_data_fields index_example_row stripSpaces_examples)

section \<open>The properties\<close>

subsection \<open>Destinations\<close>

text \<open>
  C1. For every group of the result, the destinations are the pairs of the rows of that
  group, walked in input order, keeping a pair exactly when no earlier pair of the group
  has its destination value, whatever the codes are. So the kept pairs stand in
  first-seen order and no two of them share a destination value: two rows of a group
  with the same destination and different codes leave one entry, the first.
\<close>

theorem destinations_first_seen:
  "\<exists>res log. Run strip data es lf vf = Inr (res, log) \<and>
     (\<forall>k obj. Elements res k = Some obj \<longrightarrow>
        (let kept = first_occurrences destination
                      (map (destination_of data) (rows_of strip data k es))
         in Attributes obj ''destinations''
              = Some (SetValue destinationSchema (map destination_object kept))
            \<and> distinct (map destination kept)))"
proof -
  obtain res log where r: "Run strip data es lf vf = Inr (res, log)"
    and g: "\<And>k. Elements res k = map_option contact_object (accumulated strip data lf vf es k)"
    using Run_group by blast
  have "Attributes obj ''destinations''
          = Some (SetValue destinationSchema (map destination_object
              (first_occurrences destination (map (destination_of data) (rows_of strip data k es)))))"
    if "Elements res k = Some obj" for k obj
  proof -
    from that g obtain c where c: "accumulated strip data lf vf es k = Some c" "obj = contact_object c"
      by auto
    then show ?thesis using accumulated_Some [OF c(1)]
      by (simp add: contact_object_def)
  qed
  with r show ?thesis
    by (simp add: Let_def distinct_first_occurrences)
qed

text \<open>In the example the group \<open>foo1\<close> has three rows; the third repeats the destination of the
  first under another code and is dropped.\<close>

theorem destinations_first_seen_witness:
  "\<exists>res log obj.
     Run stripSpaces example_data example_elements example_labels example_variables = Inr (res, log) \<and>
     Elements res ''foo1'' = Some obj \<and>
     Attributes obj ''destinations'' = Some (SetValue destinationSchema
        [destination_object \<lparr>code = ''1'', destination = ''ami-A''\<rparr>,
         destination_object \<lparr>code = ''1'', destination = ''ami-B''\<rparr>])"
proof -
  obtain res log where
    r: "Run stripSpaces example_data example_elements example_labels example_variables = Inr (res, log)"
    and a: "\<And>k obj. Elements res k = Some obj \<Longrightarrow>
        Attributes obj ''destinations''
          = Some (SetValue destinationSchema (map destination_object (first_occurrences destination
              (map (destination_of example_data) (rows_of stripSpaces example_data k example_elements)))))"
    using destinations_first_seen [of stripSpaces example_data example_elements example_labels example_variables]
    by (auto simp: Let_def)
  obtain obj where o: "Elements res ''foo1'' = Some obj"
    using group_exists [OF r, of "''foo1''"] by (auto simp: rows_foo1)
  from a [OF o] have "Attributes obj ''destinations'' = Some (SetValue destinationSchema
        [destination_object \<lparr>code = ''1'', destination = ''ami-A''\<rparr>,
         destination_object \<lparr>code = ''1'', destination = ''ami-B''\<rparr>])"
    by (simp add: rows_foo1 destination_of_def index_example_row example_data_fields first_occurrences_foldl)
  with r o show ?thesis by blast
qed

subsection \<open>Labels\<close>

text \<open>
  C2. For every group of the result, the labels are the stable unique-filter of the
  concatenation, in input order, of the label tuples of the rows of the group, the tuple
  of a row being its values under the label fields in list order, with the empty string
  for a field the row lacks. Strings are compared one by one, not tuple by tuple, so
  every string occurs at most once.
\<close>

theorem labels_stable_unique:
  "\<exists>res log. Run strip data es lf vf = Inr (res, log) \<and>
     (\<forall>k obj. Elements res k = Some obj \<longrightarrow>
        (let kept = first_occurrences (\<lambda>s. s)
                      (concat (map (label_tuple lf) (rows_of strip data k es)))
         in Attributes obj ''labels'' = Some (ListValue StringType (map StringValue kept))
            \<and> distinct kept))"
proof -
  obtain res log where r: "Run strip data es lf vf = Inr (res, log)"
    and g: "\<And>k obj. Elements res k = Some obj \<Longrightarrow>
              \<exists>c. accumulated strip data lf vf es k = Some c \<and> obj = contact_object c"
    using Run_contact by blast
  have "Attributes obj ''labels'' = Some (ListValue StringType (map StringValue
          (first_occurrences (\<lambda>s. s) (concat (map (label_tuple lf) (rows_of strip data k es))))))"
    if "Elements res k = Some obj" for k obj
  proof -
    from g [OF that] obtain c where c: "accumulated strip data lf vf es k = Some c" "obj = contact_object c"
      by blast
    then show ?thesis using accumulated_Some [OF c(1)]
      by (simp add: contact_object_def)
  qed
  moreover have "distinct (first_occurrences (\<lambda>s. s) xs)" for xs :: "string list"
    using distinct_first_occurrences [of "\<lambda>s. s" xs] by simp
  ultimately show ?thesis using r
    by (simp add: Let_def)
qed

text \<open>The six label values of the group \<open>foo1\<close> leave four labels.\<close>

theorem labels_stable_unique_witness:
  "\<exists>res log obj.
     Run stripSpaces example_data example_elements example_labels example_variables = Inr (res, log) \<and>
     Elements res ''foo1'' = Some obj \<and>
     Attributes obj ''labels'' = Some (ListValue StringType
        [StringValue ''1'', StringValue ''ami-A'', StringValue ''ami-B'', StringValue ''2''])"
proof -
  obtain res log where
    r: "Run stripSpaces example_data example_elements example_labels example_variables = Inr (res, log)"
    and a: "\<And>k obj. Elements res k = Some obj \<Longrightarrow>
        Attributes obj ''labels'' = Some (ListValue StringType (map StringValue
          (first_occurrences (\<lambda>s. s)
             (concat (map (label_tuple example_labels) (rows_of stripSpaces example_data k example_elements))))))"
    using labels_stable_unique [of stripSpaces example_data example_elements example_labels example_variables]
    by (auto simp: Let_def)
  obtain obj where o: "Elements res ''foo1'' = Some obj"
    using group_exists [OF r, of "''foo1''"] by (auto simp: rows_foo1)
  from a [OF o] have "Attributes obj ''labels'' = Some (ListValue StringType
        [StringValue ''1'', StringValue ''ami-A'', StringValue ''ami-B'', StringValue ''2''])"
    by (simp add: rows_foo1 label_tuple_def example_labels_def index_example_row first_occurrences_foldl)
  with r o show ?thesis by blast
qed

subsection \<open>Variables\<close>

text \<open>
  C3. For every group of the result and every variable field, the value of the field in
  the variables of the group is the value read from the last row of the group in input
  order: the last writer wins, whatever the earlier rows held.
\<close>

theorem variables_last_writer:
  "\<exists>res log. Run strip data es lf vf = Inr (res, log) \<and>
     (\<forall>k obj. Elements res k = Some obj \<longrightarrow>
        rows_of strip data k es \<noteq> [] \<and>
        (\<exists>m. Attributes obj ''variables'' = Some (MapValue StringType m) \<and>
             (\<forall>f \<in> set vf. m f = Some (StringValue (index (last (rows_of strip data k es)) f)))))"
proof -
  obtain res log where r: "Run strip data es lf vf = Inr (res, log)"
    and g: "\<And>k obj. Elements res k = Some obj \<Longrightarrow>
              \<exists>c. accumulated strip data lf vf es k = Some c \<and> obj = contact_object c"
    using Run_contact by blast
  have "rows_of strip data k es \<noteq> [] \<and>
        (\<exists>m. Attributes obj ''variables'' = Some (MapValue StringType m) \<and>
             (\<forall>f \<in> set vf. m f = Some (StringValue (index (last (rows_of strip data k es)) f))))"
    if "Elements res k = Some obj" for k obj
  proof -
    from g [OF that] obtain c where c: "accumulated strip data lf vf es k = Some c" "obj = contact_object c"
      by blast
    then show ?thesis using accumulated_Some [OF c(1)]
      by (simp add: contact_object_def)
  qed
  with r show ?thesis by blast
qed

text \<open>The three rows of the group \<open>foo1\<close> write \<open>name\<close>; the value of the third stays, with
  its leading blank.\<close>

theorem variables_last_writer_witness:
  "\<exists>res log obj m.
     Run stripSpaces example_data example_elements example_labels example_variables = Inr (res, log) \<and>
     Elements res ''foo1'' = Some obj \<and>
     Attributes obj ''variables'' = Some (MapValue StringType m) \<and>
     m ''name'' = Some (StringValue '' foo1'')"
proof -
  obtain res log where
    r: "Run stripSpaces example_data example_elements example_labels example_variables = Inr (res, log)"
    and a: "\<And>k obj. Elements res k = Some obj \<Longrightarrow>
        \<exists>m. Attributes obj ''variables'' = Some (MapValue StringType m) \<and>
            (\<forall>f \<in> set example_variables.
                m f = Some (StringValue (index (last (rows_of stripSpaces example_data k example_elements)) f)))"
    using variables_last_writer [of stripSpaces example_data example_elements example_labels example_variables]
    by blast
  obtain obj where o: "Elements res ''foo1'' = Some obj"
    using group_exists [OF r, of "''foo1''"] by (auto simp: rows_foo1)
  from a [OF o] obtain m where "Attributes obj ''variables'' = Some (MapValue StringType m)"
    and "m ''name'' = Some (StringValue '' foo1'')"
    by (auto simp: rows_foo1 example_variables_def index_example_row)
  with r o show ?thesis by blast
qed

subsection \<open>Keys of the result\<close>

text \<open>
  C4. With the helper trimming surrounding whitespace, the keys of the result are the
  trimmed values of the group-by field of the rows, the empty one left out. Every key
  has a row that contributes to it, and the rows whose group-by value is empty or
  consists of whitespace contribute nothing: without them the result is the same.
\<close>

theorem result_keys:
  "\<exists>res log. Run stripSpaces data es lf vf = Inr (res, log) \<and>
     dom (Elements res) = (\<lambda>v. stripSpaces (index v (GroupByField data))) ` set es - {[]} \<and>
     (\<forall>k \<in> dom (Elements res). rows_of stripSpaces data k es \<noteq> []) \<and>
     (\<exists>log'. Run stripSpaces data
                (filter (\<lambda>v. \<not> list_all isSpace (index v (GroupByField data))) es) lf vf
              = Inr (res, log'))"
proof -
  define es' where "es' = filter (\<lambda>v. \<not> list_all isSpace (index v (GroupByField data))) es"
  obtain log where r: "Run stripSpaces data es lf vf =
     Inr (MapValue returnSchema (\<lambda>n. map_option contact_object (accumulated stripSpaces data lf vf es n)), log)"
    using Run_result by blast
  obtain log' where r': "Run stripSpaces data es' lf vf =
     Inr (MapValue returnSchema (\<lambda>n. map_option contact_object (accumulated stripSpaces data lf vf es' n)), log')"
    using Run_result by blast
  have rows: "rows_of stripSpaces data k es' = rows_of stripSpaces data k es" if "k \<noteq> []" for k
    unfolding rows_of_def es'_def filter_filter
    using that by (intro filter_cong) (auto simp: stripSpaces_empty [symmetric])
  have "accumulated stripSpaces data lf vf es' = accumulated stripSpaces data lf vf es"
  proof (rule ext)
    fix k show "accumulated stripSpaces data lf vf es' k = accumulated stripSpaces data lf vf es k"
      by (cases "k = []") (simp_all add: accumulated_def rows)
  qed
  with r' have same: "Run stripSpaces data es' lf vf =
     Inr (MapValue returnSchema (\<lambda>n. map_option contact_object (accumulated stripSpaces data lf vf es n)), log')"
    by simp
  have d: "dom (\<lambda>n. map_option contact_object (accumulated stripSpaces data lf vf es n))
          = (\<lambda>v. stripSpaces (index v (GroupByField data))) ` set es - {[]}"
    by (auto simp: accumulated_def rows_of_def dom_def Let_def filter_empty_conv)
  have n: "rows_of stripSpaces data k es \<noteq> []"
    if "k \<in> dom (\<lambda>n. map_option contact_object (accumulated stripSpaces data lf vf es n))" for k
    using that by (auto simp: accumulated_def Let_def split: if_splits)
  show ?thesis
    using r same d n unfolding es'_def by auto
qed

text \<open>The five rows of the example give two keys: the name with a leading blank joins
  \<open>foo1\<close> and the blank name gives none.\<close>

theorem result_keys_witness:
  "\<exists>res log.
     Run stripSpaces example_data example_elements example_labels example_variables = Inr (res, log) \<and>
     dom (Elements res) = {''foo1'', ''bar1''}"
proof -
  obtain res log where
    r: "Run stripSpaces example_data example_elements example_labels example_variables = Inr (res, log)"
    and a: "dom (Elements res) =
       (\<lambda>v. stripSpaces (index v (GroupByField example_data))) ` set example_elements - {[]}"
    using result_keys [of example_data example_elements example_labels example_variables]
    by blast
  have "(\<lambda>v. stripSpaces (index v (GroupByField example_data))) ` set example_elements - {[]}
          = {''foo1'', ''bar1''}"
    by (auto simp: example_elements_def example_data_fields index_example_row stripSpaces_examples)
  with r a show ?thesis by simp
qed

subsection \<open>Keys of the variables\<close>

text \<open>
  C5, as the code has it. For every group of the result, the keys of the variables are
  the variable fields, all of them, whether or not a row of the group has the field.
\<close>

theorem variables_keys:
  "\<exists>res log. Run strip data es lf vf = Inr (res, log) \<and>
     (\<forall>k obj. Elements res k = Some obj \<longrightarrow>
        (\<exists>m. Attributes obj ''variables'' = Some (MapValue StringType m) \<and> dom m = set vf))"
proof -
  obtain res log where r: "Run strip data es lf vf = Inr (res, log)"
    and g: "\<And>k obj. Elements res k = Some obj \<Longrightarrow>
              \<exists>c. accumulated strip data lf vf es k = Some c \<and> obj = contact_object c"
    using Run_contact by blast
  have "\<exists>m. Attributes obj ''variables'' = Some (MapValue StringType m) \<and> dom m = set vf"
    if "Elements res k = Some obj" for k obj
  proof -
    from g [OF that] obtain c where c: "accumulated strip data lf vf es k = Some c" "obj = contact_object c"
      by blast
    then show ?thesis using accumulated_Some [OF c(1)]
      by (auto simp: contact_object_def dom_def)
  qed
  with r show ?thesis by blast
qed

text \<open>No row of the example has the field \<open>note\<close>, and it is a key all the same.\<close>

theorem variables_keys_witness:
  "\<exists>res log obj m.
     Run stripSpaces example_data example_elements example_labels example_variables = Inr (res, log) \<and>
     Elements res ''foo1'' = Some obj \<and>
     Attributes obj ''variables'' = Some (MapValue StringType m) \<and>
     dom m = {''name'', ''note''}"
proof -
  obtain res log where
    r: "Run stripSpaces example_data example_elements example_labels example_variables = Inr (res, log)"
    and a: "\<And>k obj. Elements res k = Some obj \<Longrightarrow>
        \<exists>m. Attributes obj ''variables'' = Some (MapValue StringType m) \<and> dom m = set example_variables"
    using variables_keys [of stripSpaces example_data example_elements example_labels example_variables]
    by blast
  obtain obj where o: "Elements res ''foo1'' = Some obj"
    using group_exists [OF r, of "''foo1''"] by (auto simp: rows_foo1)
  from a [OF o] obtain m where "Attributes obj ''variables'' = Some (MapValue StringType m)"
    and "dom m = {''name'', ''note''}"
    by (auto simp: example_variables_def)
  with r o show ?thesis by blast
qed

text \<open>The sentence of the specification, that the keys are only those variable fields
  that some row of the group has, fails on the example: the group \<open>foo1\<close> has the key
  \<open>note\<close> and none of its rows has that field.\<close>

theorem variables_only_present_counterexample:
  "\<not> (\<exists>res log.
        Run stripSpaces example_data example_elements example_labels example_variables = Inr (res, log) \<and>
        (\<forall>k obj. Elements res k = Some obj \<longrightarrow>
           (\<exists>m. Attributes obj ''variables'' = Some (MapValue StringType m) \<and>
                dom m = {f \<in> set example_variables.
                           \<exists>v \<in> set (rows_of stripSpaces example_data k example_elements). f \<in> dom v})))"
proof
  assume "\<exists>res log.
        Run stripSpaces example_data example_elements example_labels example_variables = Inr (res, log) \<and>
        (\<forall>k obj. Elements res k = Some obj \<longrightarrow>
           (\<exists>m. Attributes obj ''variables'' = Some (MapValue StringType m) \<and>
                dom m = {f \<in> set example_variables.
                           \<exists>v \<in> set (rows_of stripSpaces example_data k example_elements). f \<in> dom v}))"
  then obtain res log where
    r: "Run stripSpaces example_data example_elements example_labels example_variables = Inr (res, log)"
    and a: "\<And>k obj. Elements res k = Some obj \<Longrightarrow>
           \<exists>m. Attributes obj ''variables'' = Some (MapValue StringType m) \<and>
                dom m = {f \<in> set example_variables.
                           \<exists>v \<in> set (rows_of stripSpaces example_data k example_elements). f \<in> dom v}"
    by blast
  obtain obj where o: "Elements res ''foo1'' = Some obj"
    using group_exists [OF r, of "''foo1''"] by (auto simp: rows_foo1)
  from a [OF o] obtain m where m: "Attributes obj ''variables'' = Some (MapValue StringType m)"
    and d: "dom m = {f \<in> set example_variables.
               \<exists>v \<in> set (rows_of stripSpaces example_data ''foo1'' example_elements). f \<in> dom v}"
    by blast
  have "\<forall>v \<in> set (rows_of stripSpaces example_data ''foo1'' example_elements). ''note'' \<notin> dom v"
    unfolding rows_foo1 by (simp add: example_row_def)
  with d have absent: "''note'' \<notin> dom m" by blast
  from o obtain c where
    c: "accumulated stripSpaces example_data example_labels example_variables example_elements ''foo1'' = Some c"
    and oc: "obj = contact_object c"
    using Run_Elements [OF r, of "''foo1''"] by auto
  from accumulated_Some [OF c] have "variables c ''note'' \<noteq> None"
    by (simp add: example_variables_def)
  moreover from m oc have "m = (\<lambda>k. map_option StringValue (variables c k))"
    by (simp add: contact_object_def)
  ultimately have "''note'' \<in> dom m" by (simp add: dom_def)
  with absent show False by simp
qed

subsection \<open>Missing fields\<close>

text \<open>
  C6. A field that a row does not have reads as the empty string, and the function
  returns what it returns when the row maps the field to the empty string: the same
  value and the same warnings, and no failure. The lookup causes no warning: when the
  field is not the group-by field, the warnings are those of the run in which the row
  has the field with any value whatever, and in general the warnings are the same for
  every input whose rows have the same values under the group-by field.
\<close>

theorem missing_field_reads_empty:
  "v f = None \<Longrightarrow>
     index v f = [] \<and>
     Run strip data (xs @ v # ys) lf vf = Run strip data (xs @ v(f \<mapsto> []) # ys) lf vf \<and>
     (\<exists>res log. Run strip data (xs @ v # ys) lf vf = Inr (res, log) \<and>
        (f \<noteq> GroupByField data \<longrightarrow>
           (\<forall>s. \<exists>res'. Run strip data (xs @ v(f \<mapsto> s) # ys) lf vf = Inr (res', log))) \<and>
        (\<forall>es'. map (\<lambda>r. index r (GroupByField data)) es'
                 = map (\<lambda>r. index r (GroupByField data)) (xs @ v # ys) \<longrightarrow>
           (\<exists>res'. Run strip data es' lf vf = Inr (res', log))))"
proof -
  assume a: "v f = None"
  then have "index v = index (v(f \<mapsto> []))"
    by (intro ext) (simp add: index_def)
  then have "list_all2 (\<lambda>v v'. index v = index v') (xs @ v # ys) (xs @ v(f \<mapsto> []) # ys)"
    by (simp add: list_all2_appendI list_all2_refl)
  then have same: "Run strip data (xs @ v # ys) lf vf = Run strip data (xs @ v(f \<mapsto> []) # ys) lf vf"
    by (rule Run_cong)
  obtain res log where r: "Run strip data (xs @ v # ys) lf vf = Inr (res, log)"
    using Run_group by blast
  have any: "\<exists>res'. Run strip data es' lf vf = Inr (res', log)"
    if "map (\<lambda>r. index r (GroupByField data)) es'
          = map (\<lambda>r. index r (GroupByField data)) (xs @ v # ys)" for es'
    using Run_log_names [OF that [symmetric] r] .
  have other: "\<exists>res'. Run strip data (xs @ v(f \<mapsto> s) # ys) lf vf = Inr (res', log)"
    if "f \<noteq> GroupByField data" for s
  proof (rule any)
    from that have "index (v(f \<mapsto> s)) (GroupByField data) = index v (GroupByField data)"
      by (simp add: index_def)
    then show "map (\<lambda>r. index r (GroupByField data)) (xs @ v(f \<mapsto> s) # ys)
        = map (\<lambda>r. index r (GroupByField data)) (xs @ v # ys)"
      by simp
  qed
  from a have "index v f = []" by (simp add: index_def)
  with same r any other show ?thesis by blast
qed

text \<open>A row of the example without the field \<open>note\<close>, a variable field: the run
  logs no warning, as it does when the row has an empty \<open>note\<close> or the
  \<open>note\<close> \<open>x\<close>.\<close>

theorem missing_field_reads_empty_witness:
  "example_row ''bar1'' ''m3'' ''ami-A'' ''note'' = None \<and>
   ''note'' \<noteq> GroupByField example_data \<and>
   index (example_row ''bar1'' ''m3'' ''ami-A'') ''note'' = [] \<and>
   Run stripSpaces example_data
     ([example_row ''foo1'' ''1'' ''ami-A''] @ example_row ''bar1'' ''m3'' ''ami-A'' # [])
     example_labels example_variables
   = Run stripSpaces example_data
     ([example_row ''foo1'' ''1'' ''ami-A''] @ (example_row ''bar1'' ''m3'' ''ami-A'')(''note'' \<mapsto> []) # [])
     example_labels example_variables \<and>
   (\<exists>res res'.
      Run stripSpaces example_data
        ([example_row ''foo1'' ''1'' ''ami-A''] @ example_row ''bar1'' ''m3'' ''ami-A'' # [])
        example_labels example_variables = Inr (res, []) \<and>
      Run stripSpaces example_data
        ([example_row ''foo1'' ''1'' ''ami-A''] @ (example_row ''bar1'' ''m3'' ''ami-A'')(''note'' \<mapsto> ''x'') # [])
        example_labels example_variables = Inr (res', []))"
proof -
  have h: "example_row ''bar1'' ''m3'' ''ami-A'' ''note'' = None"
    by (simp add: example_row_def)
  have n: "''note'' \<noteq> GroupByField example_data"
    by (simp add: example_data_fields)
  from missing_field_reads_empty [of "example_row ''bar1'' ''m3'' ''ami-A''" "''note''"
        stripSpaces example_data
        "[example_row ''foo1'' ''1'' ''ami-A'']" "[]" example_labels example_variables, OF h]
  obtain res log where
    i: "index (example_row ''bar1'' ''m3'' ''ami-A'') ''note'' = []"
    and e: "Run stripSpaces example_data
     ([example_row ''foo1'' ''1'' ''ami-A''] @ example_row ''bar1'' ''m3'' ''ami-A'' # [])
     example_labels example_variables
   = Run stripSpaces example_data
     ([example_row ''foo1'' ''1'' ''ami-A''] @ (example_row ''bar1'' ''m3'' ''ami-A'')(''note'' \<mapsto> []) # [])
     example_labels example_variables"
    and r: "Run stripSpaces example_data
        ([example_row ''foo1'' ''1'' ''ami-A''] @ example_row ''bar1'' ''m3'' ''ami-A'' # [])
        example_labels example_variables = Inr (res, log)"
    and o: "\<And>s. \<exists>res'. Run stripSpaces example_data
        ([example_row ''foo1'' ''1'' ''ami-A''] @ (example_row ''bar1'' ''m3'' ''ami-A'')(''note'' \<mapsto> s) # [])
        example_labels example_variables = Inr (res', log)"
    using n by blast
  from Run_log [OF r] obtain seen where
    g: "group_loop stripSpaces example_data example_labels example_variables 0
          ([example_row ''foo1'' ''1'' ''ami-A''] @ example_row ''bar1'' ''m3'' ''ami-A'' # [])
          (Map.empty, []) = Inr (seen, log)"
    by blast
  have "log = []"
    using g
    by (simp add: group_step_def example_data_fields index_example_row stripSpaces_examples
        Lock_def Unlock_def example_variables_def Let_def)
  with h n i e r o [of "''x''"] show ?thesis by blast
qed

subsection \<open>The loop over the groups\<close>



subsection \<open>No failure\<close>

text \<open>
  C8. For every list of rows, every choice of fields and every helper, the function
  returns a result together with its warnings: no constructor panics, no lock blocks
  and the result is accepted.
\<close>

theorem Run_returns: "\<exists>res log. Run strip data es lf vf = Inr (res, log)"
  using Run_group by blast

text \<open>The example input.\<close>

theorem Run_returns_witness:
  "\<exists>res log. Run stripSpaces example_data example_elements example_labels example_variables = Inr (res, log)"
  using Run_returns [of stripSpaces example_data example_elements example_labels example_variables] .

subsection \<open>Variable fields that no row has\<close>

text \<open>
  C9. For every group of the result, the variables have an entry for every variable
  field and for nothing else; a field that no row of the group has maps to the empty
  string.
\<close>

theorem variables_absent_field:
  "\<exists>res log. Run strip data es lf vf = Inr (res, log) \<and>
     (\<forall>k obj. Elements res k = Some obj \<longrightarrow>
        (\<exists>m. Attributes obj ''variables'' = Some (MapValue StringType m) \<and>
             (\<forall>f \<in> set vf. \<exists>s. m f = Some (StringValue s)) \<and>
             (\<forall>f \<in> set vf. (\<forall>v \<in> set (rows_of strip data k es). v f = None) \<longrightarrow>
                               m f = Some (StringValue [])) \<and>
             (\<forall>f. f \<notin> set vf \<longrightarrow> m f = None)))"
proof -
  obtain res log where r: "Run strip data es lf vf = Inr (res, log)"
    and g: "\<And>k obj. Elements res k = Some obj \<Longrightarrow>
              \<exists>c. accumulated strip data lf vf es k = Some c \<and> obj = contact_object c"
    using Run_contact by blast
  have "\<exists>m. Attributes obj ''variables'' = Some (MapValue StringType m) \<and>
             (\<forall>f \<in> set vf. \<exists>s. m f = Some (StringValue s)) \<and>
             (\<forall>f \<in> set vf. (\<forall>v \<in> set (rows_of strip data k es). v f = None) \<longrightarrow>
                               m f = Some (StringValue [])) \<and>
             (\<forall>f. f \<notin> set vf \<longrightarrow> m f = None)"
    if "Elements res k = Some obj" for k obj
  proof -
    from g [OF that] obtain c where c: "accumulated strip data lf vf es k = Some c" "obj = contact_object c"
      by blast
    have ne: "rows_of strip data k es \<noteq> []" using accumulated_Some [OF c(1)] by simp
    have "index (last (rows_of strip data k es)) f = []"
      if "\<forall>v \<in> set (rows_of strip data k es). v f = None" for f
    proof -
      have "last (rows_of strip data k es) f = None"
        using that last_in_set [OF ne] by blast
      then show ?thesis by (simp add: index_def)
    qed
    then show ?thesis using accumulated_Some [OF c(1)] c(2)
      by (simp add: contact_object_def)
  qed
  with r show ?thesis by blast
qed

text \<open>In the example the field \<open>note\<close>, which no row has, maps to the empty string, and
  \<open>code\<close>, which is no variable field, is no key.\<close>

theorem variables_absent_field_witness:
  "\<exists>res log obj m.
     Run stripSpaces example_data example_elements example_labels example_variables = Inr (res, log) \<and>
     Elements res ''foo1'' = Some obj \<and>
     Attributes obj ''variables'' = Some (MapValue StringType m) \<and>
     m ''note'' = Some (StringValue []) \<and> m ''code'' = None"
proof -
  obtain res log where
    r: "Run stripSpaces example_data example_elements example_labels example_variables = Inr (res, log)"
    and a: "\<And>k obj. Elements res k = Some obj \<Longrightarrow>
        \<exists>m. Attributes obj ''variables'' = Some (MapValue StringType m) \<and>
             (\<forall>f \<in> set example_variables. \<exists>s. m f = Some (StringValue s)) \<and>
             (\<forall>f \<in> set example_variables.
                 (\<forall>v \<in> set (rows_of stripSpaces example_data k example_elements). v f = None) \<longrightarrow>
                    m f = Some (StringValue [])) \<and>
             (\<forall>f. f \<notin> set example_variables \<longrightarrow> m f = None)"
    using variables_absent_field [of stripSpaces example_data example_elements example_labels example_variables]
    by blast
  obtain obj where o: "Elements res ''foo1'' = Some obj"
    using group_exists [OF r, of "''foo1''"] by (auto simp: rows_foo1)
  from a [OF o] obtain m where m: "Attributes obj ''variables'' = Some (MapValue StringType m)"
    and p: "\<forall>f \<in> set example_variables.
             (\<forall>v \<in> set (rows_of stripSpaces example_data ''foo1'' example_elements). v f = None) \<longrightarrow>
                m f = Some (StringValue [])"
    and q: "\<forall>f. f \<notin> set example_variables \<longrightarrow> m f = None"
    by blast
  have "\<forall>v \<in> set (rows_of stripSpaces example_data ''foo1'' example_elements). v ''note'' = None"
    unfolding rows_foo1 by (simp add: example_row_def)
  moreover have "''note'' \<in> set example_variables" "''code'' \<notin> set example_variables"
    by (simp_all add: example_variables_def)
  ultimately have "m ''note'' = Some (StringValue [])" "m ''code'' = None"
    using p q by blast+
  with r o m show ?thesis by blast
qed

subsection \<open>Groups do not interfere\<close>

text \<open>
  C10. The entry of the result for a name depends only on the rows of that name, in
  their order: two inputs with the same rows for a name give the same entry for it.
\<close>

theorem group_noninterference:
  "rows_of strip data k es = rows_of strip data k es' \<Longrightarrow>
     \<exists>res log res' log'.
        Run strip data es lf vf = Inr (res, log) \<and>
        Run strip data es' lf vf = Inr (res', log') \<and>
        Elements res k = Elements res' k"
proof -
  assume a: "rows_of strip data k es = rows_of strip data k es'"
  obtain res log where r: "Run strip data es lf vf = Inr (res, log)"
    and g: "\<And>k. Elements res k = map_option contact_object (accumulated strip data lf vf es k)"
    using Run_group by blast
  obtain res' log' where r': "Run strip data es' lf vf = Inr (res', log')"
    and g': "\<And>k. Elements res' k = map_option contact_object (accumulated strip data lf vf es' k)"
    using Run_group by blast
  from g g' accumulated_rows [OF a] have "Elements res k = Elements res' k" by simp
  with r r' show ?thesis by blast
qed

text \<open>The rows of \<open>foo1\<close> stay while the other rows of the example are replaced.\<close>

theorem group_noninterference_witness:
  "\<exists>res log res' log' obj.
     Run stripSpaces example_data example_elements example_labels example_variables = Inr (res, log) \<and>
     Run stripSpaces example_data
       [example_row ''zed'' ''7'' ''ami-Z'',
        example_row ''foo1'' ''1'' ''ami-A'',
        example_row ''foo1'' ''1'' ''ami-B'',
        example_row '' foo1'' ''2'' ''ami-A''] example_labels example_variables = Inr (res', log') \<and>
     Elements res ''foo1'' = Some obj \<and> Elements res' ''foo1'' = Some obj"
proof -
  have h: "rows_of stripSpaces example_data ''foo1'' example_elements =
      rows_of stripSpaces example_data ''foo1''
       [example_row ''zed'' ''7'' ''ami-Z'',
        example_row ''foo1'' ''1'' ''ami-A'',
        example_row ''foo1'' ''1'' ''ami-B'',
        example_row '' foo1'' ''2'' ''ami-A'']"
    by (simp add: rows_foo1)
       (simp add: rows_of_def example_data_fields index_example_row stripSpaces_examples stripSpaces_def isSpace_def)
  from group_noninterference [OF h, of example_labels example_variables]
  obtain res log res' log' where
    r: "Run stripSpaces example_data example_elements example_labels example_variables = Inr (res, log)"
    and r': "Run stripSpaces example_data
       [example_row ''zed'' ''7'' ''ami-Z'',
        example_row ''foo1'' ''1'' ''ami-A'',
        example_row ''foo1'' ''1'' ''ami-B'',
        example_row '' foo1'' ''2'' ''ami-A''] example_labels example_variables = Inr (res', log')"
    and e: "Elements res ''foo1'' = Elements res' ''foo1''"
    by blast
  obtain obj where o: "Elements res ''foo1'' = Some obj"
    using group_exists [OF r, of "''foo1''"] by (auto simp: rows_foo1)
  with e have "Elements res' ''foo1'' = Some obj" by simp
  with r r' o show ?thesis by blast
qed

end
